theory Spec2Isabelle
  imports Main
begin

section \<open>Connected Component Finder: the PySpark notebook as HOL functions\<close>

text \<open>
  The notebook \<^verbatim>\<open>ccf-project-pyspark.ipynb\<close> computes connected components by
  repeating one map/reduce round (\<^verbatim>\<open>CFF_iterate\<close> or \<^verbatim>\<open>CFF_iterate_sorting\<close>) inside the
  loop of \<^verbatim>\<open>process\<close> until the round reports zero new pairs.

  Modelling decisions:
  \<^item> A node identifier is a Python integer, hence \<^typ>\<open>int\<close>. The conversion
    \<^verbatim>\<open>int(x[0])\<close>, \<^verbatim>\<open>map(int, x[1])\<close> of the notebook is the identity on integers, which is
    what the loop sees from its second round on and what the commented toy graph feeds it.
  \<^item> An RDD is the list of its elements. Spark fixes no order for the elements of an
    RDD or for the values of one group; the model takes the order of the list, and the
    general theorems below speak about the set of edges and about whether the count is
    positive, which do not depend on that order.
  \<^item> \<^verbatim>\<open>partitionBy(100)\<close> and \<^verbatim>\<open>cache()\<close> change where the data lives, not what it is.
  \<^item> \<^verbatim>\<open>min\<close> of an empty list raises \<^verbatim>\<open>ValueError\<close> and \<^verbatim>\<open>x[1][0]\<close> on an empty
    list raises \<^verbatim>\<open>IndexError\<close>; both are results of the model (\<open>Inl\<close>).
  \<^item> The \<^verbatim>\<open>while\<close> loop of \<^verbatim>\<open>process\<close> may in principle run forever; it is a partial
    function in the option monad, \<open>None\<close> meaning that the loop never exits.
\<close>

type_synonym node = int
type_synonym edge = "node \<times> node"

datatype py_error = ValueError | IndexError

subsection \<open>Spark and Python primitives\<close>

text \<open>\<^verbatim>\<open>rdd.groupByKey().mapValues(list)\<close>: one record per distinct key, holding every
  value paired with that key (duplicates kept).\<close>

definition groupByKey :: "('k \<times> 'v) list \<Rightarrow> ('k \<times> 'v list) list" where
  "groupByKey kvs =
     map (\<lambda>k. (k, map snd (filter (\<lambda>kv. fst kv = k) kvs))) (remdups (map fst kvs))"

text \<open>\<^verbatim>\<open>min(xs)\<close> and \<^verbatim>\<open>xs[0]\<close>.\<close>

definition py_min :: "int list \<Rightarrow> py_error + int" where
  "py_min xs = (case xs of [] \<Rightarrow> Inl ValueError | y # ys \<Rightarrow> Inr (fold min ys y))"

definition py_first :: "int list \<Rightarrow> py_error + int" where
  "py_first xs = (case xs of [] \<Rightarrow> Inl IndexError | y # ys \<Rightarrow> Inr y)"

text \<open>\<^verbatim>\<open>rdd.map(f)\<close> for an \<open>f\<close> that may raise: the job fails with the first error.\<close>

fun rdd_map :: "('a \<Rightarrow> py_error + 'b) \<Rightarrow> 'a list \<Rightarrow> py_error + 'b list" where
  "rdd_map f [] = Inr []"
| "rdd_map f (x # xs) =
     (case f x of
        Inl e \<Rightarrow> Inl e
      | Inr y \<Rightarrow> (case rdd_map f xs of Inl e \<Rightarrow> Inl e | Inr ys \<Rightarrow> Inr (y # ys)))"

subsection \<open>The stages shared by both variants\<close>

text \<open>Lines 149--152 (and 234--236): emit every pair in both directions and group by key.\<close>

definition emit_pairs :: "edge list \<Rightarrow> edge list" where
  "emit_pairs rdd = (let rdd_inv = map (\<lambda>x. (snd x, fst x)) rdd in rdd @ rdd_inv)"

definition adjacency :: "edge list \<Rightarrow> (node \<times> node list) list" where
  "adjacency rdd = groupByKey (emit_pairs rdd)"

text \<open>Lines 154 and 157--166 (239 and 242--251): keep the records whose key is above the
  minimum, count, emit and deduplicate. The argument \<open>strip\<close> is the line in between,
  ``remove min from list'', on which the two variants differ.\<close>

definition CFF_dedup :: "edge list \<Rightarrow> edge list" where
  "CFF_dedup emit_tot =
     (let new = map (\<lambda>x. ((fst x, snd x), ([] :: unit list))) emit_tot;
          new = groupByKey new
      in map (\<lambda>x. (fst (fst x), snd (fst x))) new)"

definition CFF_emit ::
  "(node list \<Rightarrow> node \<Rightarrow> node list) \<Rightarrow> (node \<times> node list \<times> node) list \<Rightarrow> edge list \<times> nat" where
  "CFF_emit strip graph =
     (let graph = filter (\<lambda>x. fst x > snd (snd x)) graph;
          graph = map (\<lambda>x. (fst x, strip (fst (snd x)) (snd (snd x)), snd (snd x))) graph;
          new_pairs = sum_list (map (\<lambda>x. length (fst (snd x))) graph);
          emit_1 = map (\<lambda>x. (fst x, snd (snd x))) graph;
          emit_2 = concat (map (\<lambda>x. map (\<lambda>val. (val, snd (snd x))) (fst (snd x))) graph);
          emit_tot = emit_1 @ emit_2
      in (CFF_dedup emit_tot, new_pairs))"

subsection \<open>The batch variant, \<^verbatim>\<open>CFF_iterate\<close>\<close>

definition extract_min :: "node \<times> node list \<Rightarrow> py_error + (node \<times> node list \<times> node)" where
  "extract_min x = (case py_min (snd x) of Inl e \<Rightarrow> Inl e | Inr m \<Rightarrow> Inr (fst x, snd x, m))"

definition remove_min :: "node list \<Rightarrow> node \<Rightarrow> node list" where
  "remove_min vs m = filter (\<lambda>val. val \<noteq> m) vs"

definition CFF_reduce :: "(node \<times> node list) list \<Rightarrow> py_error + (edge list \<times> nat)" where
  "CFF_reduce graph =
     (case rdd_map extract_min graph of
        Inl e \<Rightarrow> Inl e
      | Inr graph \<Rightarrow> Inr (CFF_emit remove_min graph))"

definition CFF_iterate :: "edge list \<Rightarrow> py_error + (edge list \<times> nat)" where
  "CFF_iterate rdd = CFF_reduce (adjacency rdd)"

subsection \<open>The sorted variant, \<^verbatim>\<open>CFF_iterate_sorting\<close>\<close>

definition extract_first :: "node \<times> node list \<Rightarrow> py_error + (node \<times> node list \<times> node)" where
  "extract_first x =
     (case py_first (snd x) of Inl e \<Rightarrow> Inl e | Inr m \<Rightarrow> Inr (fst x, snd x, m))"

definition drop_first :: "node list \<Rightarrow> node \<Rightarrow> node list" where
  "drop_first vs m = tl vs"

definition CFF_reduce_sorting :: "(node \<times> node list) list \<Rightarrow> py_error + (edge list \<times> nat)" where
  "CFF_reduce_sorting graph =
     (let graph = map (\<lambda>x. (fst x, sort (snd x))) graph
      in case rdd_map extract_first graph of
           Inl e \<Rightarrow> Inl e
         | Inr graph \<Rightarrow> Inr (CFF_emit drop_first graph))"

definition CFF_iterate_sorting :: "edge list \<Rightarrow> py_error + (edge list \<times> nat)" where
  "CFF_iterate_sorting rdd = CFF_reduce_sorting (adjacency rdd)"

subsection \<open>The convergence driver, \<^verbatim>\<open>process\<close>\<close>

text \<open>The loop state is \<open>(rdd, new_pairs, i)\<close>. The loop returns the RDD of the last round
  together with the counter \<open>i\<close>, the number of rounds run, which the notebook prints.\<close>

definition CFF_step :: "bool \<Rightarrow> edge list \<Rightarrow> py_error + (edge list \<times> nat)" where
  "CFF_step sorting rdd = (if sorting then CFF_iterate_sorting rdd else CFF_iterate rdd)"

partial_function (option) process_loop ::
  "bool \<Rightarrow> edge list \<times> nat \<times> nat \<Rightarrow> (py_error + (edge list \<times> nat)) option" where
  "process_loop sorting s =
     (if fst (snd s) > 0
      then (case CFF_step sorting (fst s) of
              Inl e \<Rightarrow> Some (Inl e)
            | Inr r \<Rightarrow> process_loop sorting (fst r, snd r, snd (snd s) + 1))
      else Some (Inr (fst s, snd (snd s))))"

definition process_run :: "edge list \<Rightarrow> bool \<Rightarrow> (py_error + (edge list \<times> nat)) option" where
  "process_run rdd sorting = process_loop sorting (rdd, 1, 0)"

definition process :: "edge list \<Rightarrow> bool \<Rightarrow> (py_error + edge list) option" where
  "process rdd sorting = map_option (map_sum id fst) (process_run rdd sorting)"

definition process_rounds :: "edge list \<Rightarrow> bool \<Rightarrow> (py_error + nat) option" where
  "process_rounds rdd sorting = map_option (map_sum id snd) (process_run rdd sorting)"

declare process_loop.simps [code]

subsection \<open>Reading an edge list as a component assignment\<close>

text \<open>The representative of a node in an edge list is the smallest value paired with
  that key, and the node itself when the key has no entry.\<close>

definition representative :: "edge list \<Rightarrow> node \<Rightarrow> node" where
  "representative rdd n =
     (let vs = map snd (filter (\<lambda>x. fst x = n) rdd) in if vs = [] then n else Min (set vs))"

subsection \<open>The count as the specification words it\<close>

text \<open>The specification gives the contribution of the record \<open>(n, V)\<close> to the new-pairs
  count as the number of values of \<open>V\<close> different from the minimum, plus one, when \<open>n\<close> is
  above the minimum, and zero otherwise. This definition follows those words; it is
  compared with the count of \<open>CFF_reduce\<close> below.\<close>

definition claimed_new_pairs :: "node \<Rightarrow> node list \<Rightarrow> nat" where
  "claimed_new_pairs n V =
     (let m = Min (set V) in if n > m then card (set (filter (\<lambda>v. v \<noteq> m) V)) + 1 else 0)"

section \<open>Edge sets\<close>

text \<open>
  The proofs read an RDD as the set of its edges. For an edge set \<open>E\<close>, \<open>nbrs E k\<close> are
  the values grouped under key \<open>k\<close> after both directions have been emitted, \<open>lead E k\<close>
  is their minimum, \<open>down E k\<close> says that the record of \<open>k\<close> passes the filter (its key is
  above the minimum), \<open>Tset E\<close> is the set of edges the batch round emits and \<open>NPpos E\<close>
  says that its new-pairs count is positive. \<open>group_of rdd k\<close> is the list of values of the
  record with key \<open>k\<close>.
\<close>

definition nodes :: "edge set \<Rightarrow> node set" where
  "nodes E = fst ` E \<union> snd ` E"

definition nbrs :: "edge set \<Rightarrow> node \<Rightarrow> node set" where
  "nbrs E k = {v. (k, v) \<in> E \<or> (v, k) \<in> E}"

definition lead :: "edge set \<Rightarrow> node \<Rightarrow> node" where
  "lead E k = Min (nbrs E k)"

definition down :: "edge set \<Rightarrow> node \<Rightarrow> bool" where
  "down E k \<longleftrightarrow> nbrs E k \<noteq> {} \<and> lead E k < k"

definition Tset :: "edge set \<Rightarrow> edge set" where
  "Tset E = {(k, lead E k) | k. down E k} \<union>
            {(v, lead E k) | k v. down E k \<and> v \<in> nbrs E k \<and> v \<noteq> lead E k}"

definition NPpos :: "edge set \<Rightarrow> bool" where
  "NPpos E \<longleftrightarrow> (\<exists>k v. down E k \<and> v \<in> nbrs E k \<and> v \<noteq> lead E k)"

definition group_of :: "edge list \<Rightarrow> node \<Rightarrow> node list" where
  "group_of rdd k = map snd (filter (\<lambda>kv. fst kv = k) (emit_pairs rdd))"

text \<open>
  \<open>rho E k\<close> is the smaller of \<open>k\<close> and its neighbours. A \<open>star\<close> edge set is one whose
  round emits exactly one edge per passing key, towards a node that does not pass.
  \<open>potential\<close> and \<open>weight\<close> measure how far an edge set over the nodes \<open>S\<close> is from
  convergence.
\<close>

definition rho :: "edge set \<Rightarrow> node \<Rightarrow> node" where
  "rho E k = (if down E k then lead E k else k)"

definition star :: "edge set \<Rightarrow> bool" where
  "star E \<longleftrightarrow> (\<forall>k. down E k \<longrightarrow> \<not> down E (lead E k)) \<and>
              Tset E = {(k, lead E k) | k. down E k}"

definition potential :: "node set \<Rightarrow> edge set \<Rightarrow> nat" where
  "potential S E = (\<Sum>k\<in>S. nat (rho E k - Min S))"

definition weight :: "node set \<Rightarrow> edge set \<Rightarrow> nat" where
  "weight S E = 2 * potential S E + (if NPpos E then 1 else 0)"

text \<open>\<open>run E F j\<close>: the loop started on an edge set \<open>E\<close> returns the edge set \<open>F\<close> after
  \<open>j\<close> rounds, as the batch variant computes them.\<close>

inductive run :: "edge set \<Rightarrow> edge set \<Rightarrow> nat \<Rightarrow> bool" where
  stop: "\<not> NPpos E \<Longrightarrow> run E (Tset E) 1"
| step: "NPpos E \<Longrightarrow> run (Tset E) F j \<Longrightarrow> run E F (Suc j)"

text \<open>The sorted variant treats an RDD like the batch variant does once the RDD has no
  duplicates and no edge towards a larger node.\<close>

definition good :: "bool \<Rightarrow> edge list \<Rightarrow> bool" where
  "good sorting rdd \<longleftrightarrow> (sorting \<longrightarrow> distinct rdd \<and> (\<forall>e\<in>set rdd. snd e \<le> fst e))"

section \<open>Lemmas\<close>

subsection \<open>Grouping, deduplication and the records of one round\<close>

lemma set_groupByKey:
  "set (groupByKey kvs) = (\<lambda>k. (k, map snd (filter (\<lambda>kv. fst kv = k) kvs))) ` fst ` set kvs"
  by (simp add: groupByKey_def)

lemma CFF_dedup_remdups: "CFF_dedup xs = remdups xs"
  by (simp add: CFF_dedup_def groupByKey_def comp_def)

lemma set_emit_pairs: "set (emit_pairs rdd) = set rdd \<union> (\<lambda>x. (snd x, fst x)) ` set rdd"
  by (simp add: emit_pairs_def)

lemma fst_emit_pairs: "fst ` set (emit_pairs rdd) = nodes (set rdd)"
  by (auto simp: set_emit_pairs nodes_def image_Un image_image)

lemma set_adjacency: "set (adjacency rdd) = (\<lambda>k. (k, group_of rdd k)) ` nodes (set rdd)"
  by (simp add: adjacency_def set_groupByKey group_of_def fst_emit_pairs)

lemma set_out_values: "set (map snd (filter (\<lambda>kv. fst kv = k) xs)) = {v. (k, v) \<in> set xs}"
  by (induction xs) auto

lemma set_in_values:
  "set (map snd (filter (\<lambda>kv. fst kv = k) (map (\<lambda>x. (snd x, fst x)) xs))) = {v. (v, k) \<in> set xs}"
  by (induction xs) auto

lemma group_of_append:
  "group_of rdd k = map snd (filter (\<lambda>kv. fst kv = k) rdd) @
                    map snd (filter (\<lambda>kv. fst kv = k) (map (\<lambda>x. (snd x, fst x)) rdd))"
  by (simp add: group_of_def emit_pairs_def)

lemma set_group_of: "set (group_of rdd k) = nbrs (set rdd) k"
proof -
  have "set (group_of rdd k) = {v. (k, v) \<in> set rdd} \<union> {v. (v, k) \<in> set rdd}"
    by (simp only: group_of_append set_append set_in_values) (simp only: set_out_values)
  then show ?thesis unfolding nbrs_def by blast
qed

lemma nbrs_empty_iff: "nbrs E k = {} \<longleftrightarrow> k \<notin> nodes E"
  by (force simp: nbrs_def nodes_def)

lemma group_of_nonempty: "k \<in> nodes (set rdd) \<Longrightarrow> group_of rdd k \<noteq> []"
  using set_group_of [of rdd k] nbrs_empty_iff [of "set rdd" k] by auto

lemma py_min_Min:
  assumes "vs \<noteq> []"
  shows "py_min vs = Inr (Min (set vs))"
proof (cases vs)
  case Nil
  with assms show ?thesis by simp
next
  case (Cons y ys)
  then show ?thesis using Min.set_eq_fold [of y ys] by (simp add: py_min_def)
qed

lemma rdd_map_total: "(\<And>x. x \<in> set xs \<Longrightarrow> f x = Inr (g x)) \<Longrightarrow> rdd_map f xs = Inr (map g xs)"
  by (induction xs) simp_all

lemma set_CFF_emit:
  "set (fst (CFF_emit strip G)) =
     {(k, m) | k vs m. (k, vs, m) \<in> set G \<and> m < k} \<union>
     {(v, m) | k vs m v. (k, vs, m) \<in> set G \<and> m < k \<and> v \<in> set (strip vs m)}"
  by (force simp: CFF_emit_def Let_def CFF_dedup_remdups)

lemma distinct_CFF_emit: "distinct (fst (CFF_emit strip G))"
  by (simp add: CFF_emit_def Let_def CFF_dedup_remdups)

lemma sum_list_pos_iff: "0 < sum_list (map f xs) \<longleftrightarrow> (\<exists>x\<in>set xs. 0 < (f x :: nat))"
  by (induction xs) auto

lemma count_CFF_emit:
  "0 < snd (CFF_emit strip G) \<longleftrightarrow> (\<exists>k vs m. (k, vs, m) \<in> set G \<and> m < k \<and> strip vs m \<noteq> [])"
proof -
  have "snd (CFF_emit strip G) =
        sum_list (map (\<lambda>x. length (strip (fst (snd x)) (snd (snd x))))
                      (filter (\<lambda>x. fst x > snd (snd x)) G))"
    by (simp add: CFF_emit_def Let_def comp_def)
  then have "0 < snd (CFF_emit strip G) \<longleftrightarrow>
        (\<exists>x \<in> set (filter (\<lambda>x. fst x > snd (snd x)) G).
            0 < length (strip (fst (snd x)) (snd (snd x))))"
    by (simp only: sum_list_pos_iff)
  then show ?thesis by force
qed

lemma down_iff: "down E k \<longleftrightarrow> k \<in> nodes E \<and> lead E k < k"
  by (simp add: down_def nbrs_empty_iff)

lemma batch_records:
  "rdd_map extract_min (adjacency rdd) =
     Inr (map (\<lambda>x. (fst x, snd x, lead (set rdd) (fst x))) (adjacency rdd))"
proof (rule rdd_map_total)
  fix x assume "x \<in> set (adjacency rdd)"
  then obtain k where k: "k \<in> nodes (set rdd)" and x: "x = (k, group_of rdd k)"
    by (auto simp: set_adjacency)
  from k have "group_of rdd k \<noteq> []" by (rule group_of_nonempty)
  then have "py_min (group_of rdd k) = Inr (lead (set rdd) k)"
    by (simp add: py_min_Min lead_def set_group_of)
  with x show "extract_min x = Inr (fst x, snd x, lead (set rdd) (fst x))"
    by (simp add: extract_min_def)
qed

lemma CFF_iterate_Inr:
  "CFF_iterate rdd =
     Inr (CFF_emit remove_min (map (\<lambda>x. (fst x, snd x, lead (set rdd) (fst x))) (adjacency rdd)))"
  by (simp add: CFF_iterate_def CFF_reduce_def batch_records)

lemma hd_sorted_Min:
  assumes "sorted xs" "xs \<noteq> []"
  shows "hd xs = Min (set xs)"
proof (cases xs)
  case Nil
  with assms show ?thesis by simp
next
  case (Cons y ys)
  with assms have "\<forall>z\<in>set ys. y \<le> z" by simp
  then have "Min (set (y # ys)) = y"
    by (intro Min_eqI) auto
  with Cons show ?thesis by simp
qed

lemma sorting_records:
  "rdd_map extract_first (map (\<lambda>x. (fst x, sort (snd x))) (adjacency rdd)) =
     Inr (map (\<lambda>x. (fst x, snd x, lead (set rdd) (fst x)))
              (map (\<lambda>x. (fst x, sort (snd x))) (adjacency rdd)))"
proof (rule rdd_map_total)
  fix x assume "x \<in> set (map (\<lambda>x. (fst x, sort (snd x))) (adjacency rdd))"
  then obtain k where k: "k \<in> nodes (set rdd)" and x: "x = (k, sort (group_of rdd k))"
    by (auto simp: set_adjacency)
  from k have ne: "sort (group_of rdd k) \<noteq> []"
    using group_of_nonempty [of k rdd] by (metis length_sort length_0_conv)
  then obtain y ys where ys: "sort (group_of rdd k) = y # ys"
    by (cases "sort (group_of rdd k)") auto
  have "hd (sort (group_of rdd k)) = lead (set rdd) k"
    using hd_sorted_Min [OF sorted_sort ne] by (simp add: lead_def set_group_of)
  with ys have "py_first (sort (group_of rdd k)) = Inr (lead (set rdd) k)"
    by (simp add: py_first_def)
  with x show "extract_first x = Inr (fst x, snd x, lead (set rdd) (fst x))"
    by (simp add: extract_first_def)
qed

lemma CFF_iterate_sorting_Inr:
  "CFF_iterate_sorting rdd =
     Inr (CFF_emit drop_first (map (\<lambda>x. (fst x, snd x, lead (set rdd) (fst x)))
              (map (\<lambda>x. (fst x, sort (snd x))) (adjacency rdd))))"
  by (simp add: CFF_iterate_sorting_def CFF_reduce_sorting_def sorting_records)

lemma set_remove_min: "set (remove_min vs m) = set vs - {m}"
  by (auto simp: remove_min_def)

lemma set_batch_new:
  "set (fst (CFF_emit remove_min
       (map (\<lambda>x. (fst x, snd x, lead (set rdd) (fst x))) (adjacency rdd)))) = Tset (set rdd)"
  unfolding set_CFF_emit Tset_def
  by (auto simp: set_adjacency set_remove_min set_group_of down_iff image_iff)

subsection \<open>Neighbours and one round on edge sets\<close>

lemma nbrs_subset_nodes: "nbrs E k \<subseteq> nodes E"
  by (force simp: nbrs_def nodes_def)

lemma finite_nodes: "finite E \<Longrightarrow> finite (nodes E)"
  by (simp add: nodes_def)

lemma finite_nbrs: "finite E \<Longrightarrow> finite (nbrs E k)"
  using nbrs_subset_nodes finite_nodes by (metis finite_subset)

lemma nbrs_sym: "v \<in> nbrs E k \<longleftrightarrow> k \<in> nbrs E v"
  by (auto simp: nbrs_def)

lemma lead_le: "finite E \<Longrightarrow> v \<in> nbrs E k \<Longrightarrow> lead E k \<le> v"
  by (simp add: lead_def finite_nbrs)

lemma lead_in: "finite E \<Longrightarrow> nbrs E k \<noteq> {} \<Longrightarrow> lead E k \<in> nbrs E k"
  by (simp add: lead_def finite_nbrs)

lemma lead_less: "finite E \<Longrightarrow> v \<in> nbrs E k \<Longrightarrow> v \<noteq> lead E k \<Longrightarrow> lead E k < v"
  using lead_le [of E v k] by simp

lemma downI: "finite E \<Longrightarrow> v \<in> nbrs E k \<Longrightarrow> v < k \<Longrightarrow> down E k"
  using lead_le [of E v k] by (auto simp: down_def)

lemma Tset_cases:
  assumes "(a, b) \<in> Tset E"
  obtains k where "down E k" "b = lead E k" "a = k \<or> (a \<in> nbrs E k \<and> a \<noteq> lead E k)"
  using assms unfolding Tset_def by blast

lemma Tset_keyI: "down E k \<Longrightarrow> (k, lead E k) \<in> Tset E"
  unfolding Tset_def by blast

lemma Tset_nbrI: "down E k \<Longrightarrow> v \<in> nbrs E k \<Longrightarrow> v \<noteq> lead E k \<Longrightarrow> (v, lead E k) \<in> Tset E"
  unfolding Tset_def by blast

lemma Tset_strict:
  assumes "finite E" "(a, b) \<in> Tset E"
  shows "b < a"
  using assms(2)
proof (cases rule: Tset_cases)
  case (1 k)
  then show ?thesis using lead_less [OF assms(1), of a k] by (auto simp: down_def)
qed

lemma Tset_nodes: assumes "finite E" shows "nodes (Tset E) \<subseteq> nodes E"
proof
  fix x assume "x \<in> nodes (Tset E)"
  then obtain a b where ab: "(a, b) \<in> Tset E" and x: "x = a \<or> x = b"
    by (auto simp: nodes_def)
  from ab obtain k where k: "down E k" "b = lead E k" "a = k \<or> (a \<in> nbrs E k \<and> a \<noteq> lead E k)"
    by (rule Tset_cases)
  from k(1) have "k \<in> nodes E" by (simp add: down_iff)
  moreover from k(1,2) have "b \<in> nodes E"
    using lead_in [OF assms, of k] nbrs_subset_nodes [of E k] by (auto simp: down_def)
  moreover from k(3) have "a \<in> nodes E"
    using \<open>k \<in> nodes E\<close> nbrs_subset_nodes [of E k] by auto
  ultimately show "x \<in> nodes E" using x by auto
qed

lemma finite_Tset: assumes "finite E" shows "finite (Tset E)"
proof -
  have "Tset E \<subseteq> nodes (Tset E) \<times> nodes (Tset E)"
    by (force simp: nodes_def)
  also have "\<dots> \<subseteq> nodes E \<times> nodes E"
    using Tset_nodes [OF assms] by blast
  finally show ?thesis
    using finite_nodes [OF assms] by (meson finite_SigmaI finite_subset)
qed

lemma rho_le_self: "rho E k \<le> k"
  by (simp add: rho_def down_def)

lemma rho_le_nbr: "finite E \<Longrightarrow> v \<in> nbrs E k \<Longrightarrow> rho E k \<le> v"
  using lead_le [of E v k] by (auto simp: rho_def down_def)

lemma rho_mem: "finite E \<Longrightarrow> rho E k \<in> insert k (nodes E)"
  using lead_in [of E k] nbrs_subset_nodes [of E k] by (auto simp: rho_def down_def)

lemma out_nbr: "(a, b) \<in> E \<Longrightarrow> b \<in> nbrs E a"
  by (simp add: nbrs_def)

lemma in_nbr: "(a, b) \<in> E \<Longrightarrow> a \<in> nbrs E b"
  by (simp add: nbrs_def)

lemma rho_Tset_mono:
  assumes "finite E"
  shows "rho (Tset E) k \<le> rho E k"
proof (cases "down E k")
  case True
  then have "lead E k \<in> nbrs (Tset E) k"
    by (intro out_nbr Tset_keyI)
  then have "rho (Tset E) k \<le> lead E k"
    using rho_le_nbr [OF finite_Tset [OF assms]] by blast
  with True show ?thesis by (simp add: rho_def)
next
  case False
  then show ?thesis using rho_le_self [of "Tset E" k] by (simp add: rho_def)
qed

subsection \<open>Star forests: the shape of a converged edge set\<close>

lemma star_nbrs:
  assumes fin: "finite E" and st: "star E" and x: "down E x"
  shows "nbrs (Tset E) x = {lead E x}"
proof
  show "{lead E x} \<subseteq> nbrs (Tset E) x"
    using Tset_keyI [OF x] by (simp add: out_nbr)
  show "nbrs (Tset E) x \<subseteq> {lead E x}"
  proof
    fix v assume "v \<in> nbrs (Tset E) x"
    then consider "(x, v) \<in> Tset E" | "(v, x) \<in> Tset E"
      by (auto simp: nbrs_def)
    then show "v \<in> {lead E x}"
    proof cases
      case 1
      with st show ?thesis by (auto simp: star_def)
    next
      case 2
      with st have "down E v" "x = lead E v" by (auto simp: star_def)
      with st x show ?thesis by (auto simp: star_def)
    qed
  qed
qed

lemma star_not_down:
  assumes fin: "finite E" and st: "star E" and x: "\<not> down E x"
  shows "\<not> down (Tset E) x"
proof
  assume d: "down (Tset E) x"
  have finT: "finite (Tset E)" by (rule finite_Tset [OF fin])
  from d have "lead (Tset E) x \<in> nbrs (Tset E) x" "lead (Tset E) x < x"
    using lead_in [OF finT, of x] by (auto simp: down_def)
  then consider "(x, lead (Tset E) x) \<in> Tset E" | "(lead (Tset E) x, x) \<in> Tset E"
    by (auto simp: nbrs_def)
  then show False
  proof cases
    case 1
    with st x show False by (auto simp: star_def)
  next
    case 2
    then show False
      using Tset_strict [OF fin 2] \<open>lead (Tset E) x < x\<close> by simp
  qed
qed

lemma star_converged:
  assumes fin: "finite E" and st: "star E"
  shows "\<not> NPpos (Tset E)"
proof
  assume "NPpos (Tset E)"
  then obtain k v where k: "down (Tset E) k" and v: "v \<in> nbrs (Tset E) k" "v \<noteq> lead (Tset E) k"
    by (auto simp: NPpos_def)
  from k have "down E k" using star_not_down [OF fin st] by blast
  then have "nbrs (Tset E) k = {lead E k}" by (rule star_nbrs [OF fin st])
  with v show False by (simp add: lead_def)
qed

lemma converged_star:
  assumes fin: "finite E" and np: "\<not> NPpos E"
  shows "star E"
proof -
  have single: "nbrs E k = {lead E k}" if "down E k" for k
    using that np lead_in [OF fin, of k] by (auto simp: NPpos_def down_def)
  have "\<not> down E (lead E k)" if k: "down E k" for k
  proof
    assume j: "down E (lead E k)"
    have "k \<in> nbrs E (lead E k)"
      using single [OF k] nbrs_sym [of "lead E k" E k] by simp
    with single [OF j] have "k = lead E (lead E k)" by simp
    with j k show False by (simp add: down_def)
  qed
  moreover have "Tset E = {(k, lead E k) | k. down E k}"
    using np unfolding Tset_def NPpos_def by blast
  ultimately show ?thesis by (simp add: star_def)
qed

lemma rho_fixed_star:
  assumes fin: "finite E" and eq: "\<And>k. rho (Tset E) k = rho E k"
  shows "star E"
proof -
  have finT: "finite (Tset E)" by (rule finite_Tset [OF fin])
  have edge_le: "rho E a \<le> b" if "(a, b) \<in> Tset E" for a b
    using rho_le_nbr [OF finT out_nbr [OF that]] eq by simp
  have A: "down E v \<and> lead E v = lead E k"
    if k: "down E k" and v: "v \<in> nbrs E k" "v \<noteq> lead E k" for k v
  proof -
    have lt: "lead E k < v" using lead_less [OF fin v] .
    have "rho E v \<le> lead E k" using edge_le [OF Tset_nbrI [OF k v]] .
    with lt have dv: "down E v" and le: "lead E v \<le> lead E k"
      by (auto simp: rho_def split: if_splits)
    have kv: "k \<in> nbrs E v" using v(1) nbrs_sym by blast
    have "k \<noteq> lead E v" using le k by (auto simp: down_def)
    then have "rho E k \<le> lead E v" using edge_le [OF Tset_nbrI [OF dv kv]] by simp
    with k le dv show ?thesis by (simp add: rho_def)
  qed
  have B: "\<not> down E (lead E k)" if k: "down E k" for k
  proof
    assume j: "down E (lead E k)"
    have "k \<in> nbrs E (lead E k)"
      using lead_in [OF fin, of k] k nbrs_sym [of "lead E k" E k] by (simp add: down_def)
    moreover have "k \<noteq> lead E (lead E k)" using j k by (auto simp: down_def)
    ultimately have "rho E k \<le> lead E (lead E k)"
      using edge_le [OF Tset_nbrI [OF j]] by simp
    with j k show False by (simp add: rho_def down_def)
  qed
  have "Tset E = {(k, lead E k) | k. down E k}"
  proof
    show "Tset E \<subseteq> {(k, lead E k) | k. down E k}"
    proof
      fix e assume "e \<in> Tset E"
      then obtain a b where e: "e = (a, b)" and ab: "(a, b) \<in> Tset E" by (cases e) auto
      from ab obtain k where k: "down E k" "b = lead E k"
          "a = k \<or> (a \<in> nbrs E k \<and> a \<noteq> lead E k)"
        by (rule Tset_cases)
      from k A [OF k(1)] have "down E a \<and> b = lead E a" by auto
      with e show "e \<in> {(k, lead E k) | k. down E k}" by blast
    qed
    show "{(k, lead E k) | k. down E k} \<subseteq> Tset E"
      unfolding Tset_def by blast
  qed
  with B show ?thesis by (simp add: star_def)
qed

lemma rho_Tset_strict:
  assumes fin: "finite E" and np: "NPpos (Tset E)"
  shows "\<exists>k \<in> nodes E. rho (Tset E) k < rho E k"
proof (rule ccontr)
  assume neg: "\<not> (\<exists>k \<in> nodes E. rho (Tset E) k < rho E k)"
  have "rho (Tset E) k = rho E k" for k
  proof (cases "k \<in> nodes E")
    case True
    with neg rho_Tset_mono [OF fin, of k] show ?thesis by force
  next
    case False
    then have "\<not> down E k" by (simp add: down_iff)
    moreover from False have "\<not> down (Tset E) k"
      using Tset_nodes [OF fin] by (auto simp: down_iff)
    ultimately show ?thesis by (simp add: rho_def)
  qed
  then have "star E" by (rule rho_fixed_star [OF fin])
  then show False using star_converged [OF fin] np by blast
qed

subsection \<open>A measure that decreases, and the batch round\<close>

lemma rank_mono:
  assumes "finite E"
  shows "nat (rho (Tset E) k - c) \<le> nat (rho E k - c)"
  using rho_Tset_mono [OF assms, of k] by arith

lemma potential_mono:
  assumes "finite E"
  shows "potential S (Tset E) \<le> potential S E"
  unfolding potential_def
  by (rule sum_mono) (rule rank_mono [OF assms])

lemma potential_strict:
  assumes fin: "finite E" and S: "finite S" "nodes E \<subseteq> S" and np: "NPpos (Tset E)"
  shows "potential S (Tset E) < potential S E"
proof -
  from rho_Tset_strict [OF fin np] obtain k
    where k: "k \<in> nodes E" "rho (Tset E) k < rho E k" by blast
  have "rho (Tset E) k \<in> insert k (nodes (Tset E))"
    by (rule rho_mem [OF finite_Tset [OF fin]])
  with k(1) S(2) Tset_nodes [OF fin] have "rho (Tset E) k \<in> S" by auto
  with S(1) have "Min S \<le> rho (Tset E) k" by simp
  with k(2) have "nat (rho (Tset E) k - Min S) < nat (rho E k - Min S)" by simp
  moreover have "k \<in> S" using k(1) S(2) by auto
  moreover have "\<forall>x\<in>S. nat (rho (Tset E) x - Min S) \<le> nat (rho E x - Min S)"
    using rank_mono [OF fin] by blast
  ultimately show ?thesis
    unfolding potential_def using S(1) by (intro sum_strict_mono_ex1) auto
qed

lemma weight_decrease:
  assumes "finite E" "finite S" "nodes E \<subseteq> S" "NPpos E"
  shows "weight S (Tset E) < weight S E"
proof (cases "NPpos (Tset E)")
  case True
  with potential_strict [OF assms(1-3)] assms(4) show ?thesis by (simp add: weight_def)
next
  case False
  with potential_mono [OF assms(1), of S] assms(4) show ?thesis by (simp add: weight_def)
qed

lemma run_functional: "run E F j \<Longrightarrow> run E F' j' \<Longrightarrow> F = F' \<and> j = j'"
proof (induction arbitrary: F' j' rule: run.induct)
  case (stop E)
  from stop.prems stop.hyps show ?case by (cases rule: run.cases) auto
next
  case (step E F j)
  from step.prems step.hyps(1) obtain j0 where "run (Tset E) F' j0" "j' = Suc j0"
    by (cases rule: run.cases) auto
  with step.IH show ?case by blast
qed

lemma run_last:
  "run E F j \<Longrightarrow> finite E \<Longrightarrow> \<exists>E'. finite E' \<and> \<not> NPpos E' \<and> F = Tset E' \<and> nodes E' \<subseteq> nodes E"
proof (induction rule: run.induct)
  case (stop E)
  then show ?case by blast
next
  case (step E F j)
  then obtain E' where "finite E'" "\<not> NPpos E'" "F = Tset E'" "nodes E' \<subseteq> nodes (Tset E)"
    using finite_Tset by blast
  with Tset_nodes [OF step.prems] show ?case by blast
qed

lemma run_pos: "run E F j \<Longrightarrow> 0 < j"
  by (induction rule: run.induct) auto

lemma process_loop_pos:
  "CFF_step s rdd = Inr (new, np) \<Longrightarrow>
   process_loop s (rdd, Suc n, i) = process_loop s (new, np, Suc i)"
  by (subst process_loop.simps) simp

lemma process_loop_zero: "process_loop s (rdd, 0, i) = Some (Inr (rdd, i))"
  by (subst process_loop.simps) simp

lemma count_batch_new:
  "0 < snd (CFF_emit remove_min
       (map (\<lambda>x. (fst x, snd x, lead (set rdd) (fst x))) (adjacency rdd))) \<longleftrightarrow> NPpos (set rdd)"
  (is "?L \<longleftrightarrow> ?R")
proof
  assume ?L
  then obtain k vs m where "(k, vs, m) \<in> set (map (\<lambda>x. (fst x, snd x, lead (set rdd) (fst x))) (adjacency rdd))"
     "m < k" "remove_min vs m \<noteq> []"
    unfolding count_CFF_emit by blast
  then have "k \<in> nodes (set rdd)" "vs = group_of rdd k" "m = lead (set rdd) k" "m < k"
      "remove_min vs m \<noteq> []"
    by (auto simp: set_adjacency)
  moreover then obtain v where "v \<in> set vs" "v \<noteq> m"
    by (auto simp: remove_min_def filter_empty_conv)
  ultimately show ?R
    unfolding NPpos_def down_iff by (auto simp: set_group_of)
next
  assume ?R
  then obtain k v where k: "down (set rdd) k" and v: "v \<in> nbrs (set rdd) k" "v \<noteq> lead (set rdd) k"
    by (auto simp: NPpos_def)
  from k have "(k, group_of rdd k, lead (set rdd) k) \<in>
      set (map (\<lambda>x. (fst x, snd x, lead (set rdd) (fst x))) (adjacency rdd))"
    by (force simp: set_adjacency down_iff)
  moreover have "remove_min (group_of rdd k) (lead (set rdd) k) \<noteq> []"
    using v by (auto simp: remove_min_def filter_empty_conv set_group_of)
  moreover have "lead (set rdd) k < k" using k by (simp add: down_def)
  ultimately show ?L unfolding count_CFF_emit by blast
qed

lemma batch_step:
  "\<exists>new np. CFF_step False rdd = Inr (new, np) \<and> set new = Tset (set rdd) \<and>
            (0 < np \<longleftrightarrow> NPpos (set rdd))"
proof -
  let ?r = "CFF_emit remove_min
       (map (\<lambda>x. (fst x, snd x, lead (set rdd) (fst x))) (adjacency rdd))"
  have "CFF_step False rdd = Inr (fst ?r, snd ?r)"
    by (simp add: CFF_step_def CFF_iterate_Inr)
  moreover have "set (fst ?r) = Tset (set rdd)" by (rule set_batch_new)
  moreover have "0 < snd ?r \<longleftrightarrow> NPpos (set rdd)" by (rule count_batch_new)
  ultimately show ?thesis by (intro exI conjI)
qed

subsection \<open>Sorting one group\<close>

lemma count_list_insort:
  "count_list (insort a xs) x = (if a = x then 1 else 0) + count_list xs x"
  by (induction xs) auto

lemma count_list_sort: "count_list (sort xs) x = count_list xs x"
  by (induction xs) (auto simp: sort_key_simps count_list_insort)

lemma sort_split:
  assumes "vs \<noteq> []"
  shows "sort vs = Min (set vs) # tl (sort vs)"
proof -
  from assms have ne: "sort vs \<noteq> []" by (metis length_sort length_0_conv)
  have "hd (sort vs) = Min (set vs)"
    using hd_sorted_Min [OF sorted_sort ne] by simp
  with ne show ?thesis by (cases "sort vs") auto
qed

lemma set_tl_sort_upper: "set (tl (sort vs)) \<subseteq> set vs"
proof -
  have "set (tl (sort vs)) \<subseteq> set (sort vs)" by (cases "sort vs") auto
  then show ?thesis by simp
qed

lemma set_tl_sort_lower:
  assumes "vs \<noteq> []"
  shows "set vs - {Min (set vs)} \<subseteq> set (tl (sort vs))"
proof -
  have "set vs = set (Min (set vs) # tl (sort vs))"
    using sort_split [OF assms] by (metis set_sort)
  then show ?thesis by auto
qed

lemma set_tl_sort_once:
  assumes "vs \<noteq> []" "count_list vs (Min (set vs)) = 1"
  shows "set (tl (sort vs)) = set vs - {Min (set vs)}"
proof -
  let ?m = "Min (set vs)"
  have "count_list (?m # tl (sort vs)) ?m = 1"
    using sort_split [OF assms(1)] count_list_sort [of vs ?m] assms(2) by simp
  then have "?m \<notin> set (tl (sort vs))"
    by (simp add: count_list_0_iff)
  with set_tl_sort_upper [of vs] set_tl_sort_lower [OF assms(1)] show ?thesis by blast
qed

text \<open>When the minimum occurs once in a group, dropping the first sorted value is the
  batch variant's filter.\<close>

lemma drop_first_is_remove_min:
  assumes "vs \<noteq> []" "count_list vs (Min (set vs)) = 1"
  shows "drop_first (sort vs) (Min (set vs)) = sort (remove_min vs (Min (set vs)))"
proof -
  let ?m = "Min (set vs)"
  have split: "sort vs = ?m # tl (sort vs)" by (rule sort_split [OF assms(1)])
  have "set (tl (sort vs)) = set vs - {?m}" by (rule set_tl_sort_once [OF assms])
  then have "filter (\<lambda>v. v \<noteq> ?m) (tl (sort vs)) = tl (sort vs)"
    by (simp add: filter_id_conv)
  then have "filter (\<lambda>v. v \<noteq> ?m) (?m # tl (sort vs)) = tl (sort vs)" by simp
  with split have "filter (\<lambda>v. v \<noteq> ?m) (sort vs) = tl (sort vs)" by simp
  then show ?thesis by (simp add: drop_first_def remove_min_def filter_sort)
qed

lemma count_out_values:
  "count_list (map snd (filter (\<lambda>kv. fst kv = k) xs)) v = count_list xs (k, v)"
  by (induction xs) auto

lemma count_in_values:
  "count_list (map snd (filter (\<lambda>kv. fst kv = k) (map (\<lambda>x. (snd x, fst x)) xs))) v =
     count_list xs (v, k)"
  by (induction xs) auto

lemma count_group_of:
  "count_list (group_of rdd k) v = count_list rdd (k, v) + count_list rdd (v, k)"
  by (simp only: group_of_append count_list_append count_in_values) (simp only: count_out_values)

lemma distinct_count_one: "distinct xs \<Longrightarrow> x \<in> set xs \<Longrightarrow> count_list xs x = 1"
  by (induction xs) auto

lemma good_lead_once:
  assumes g: "good True rdd" and k: "down (set rdd) k"
  shows "count_list (group_of rdd k) (lead (set rdd) k) = 1"
proof -
  let ?m = "lead (set rdd) k"
  from k have "?m \<in> nbrs (set rdd) k" "?m < k"
    using lead_in [of "set rdd" k] by (auto simp: down_def)
  moreover have "(?m, k) \<notin> set rdd"
    using g \<open>?m < k\<close> by (auto simp: good_def)
  ultimately have "(k, ?m) \<in> set rdd" by (auto simp: nbrs_def)
  then have "count_list rdd (k, ?m) = 1"
    using g distinct_count_one by (auto simp: good_def)
  with \<open>(?m, k) \<notin> set rdd\<close> show ?thesis by (simp add: count_group_of)
qed

lemma sorting_records_set:
  "set (map (\<lambda>x. (fst x, snd x, lead (set rdd) (fst x)))
            (map (\<lambda>x. (fst x, sort (snd x))) (adjacency rdd))) =
   (\<lambda>k. (k, sort (group_of rdd k), lead (set rdd) k)) ` nodes (set rdd)"
  by (force simp: set_adjacency image_iff)

lemma set_sorting_new:
  "set (fst (CFF_emit drop_first
       (map (\<lambda>x. (fst x, snd x, lead (set rdd) (fst x)))
            (map (\<lambda>x. (fst x, sort (snd x))) (adjacency rdd))))) =
   {(k, lead (set rdd) k) | k. down (set rdd) k} \<union>
   {(v, lead (set rdd) k) | k v. down (set rdd) k \<and> v \<in> set (tl (sort (group_of rdd k)))}"
  unfolding set_CFF_emit sorting_records_set
  by (auto simp: down_iff drop_first_def)

lemma count_sorting_new:
  "0 < snd (CFF_emit drop_first
       (map (\<lambda>x. (fst x, snd x, lead (set rdd) (fst x)))
            (map (\<lambda>x. (fst x, sort (snd x))) (adjacency rdd)))) \<longleftrightarrow>
   (\<exists>k. down (set rdd) k \<and> tl (sort (group_of rdd k)) \<noteq> [])"
  unfolding count_CFF_emit sorting_records_set
  by (auto simp: down_iff drop_first_def)

subsection \<open>The sorted round, and the loop returns\<close>

lemma rest_upper: "set (tl (sort (group_of rdd k))) \<subseteq> nbrs (set rdd) k"
  using set_tl_sort_upper [of "group_of rdd k"] by (simp add: set_group_of)

lemma rest_lower:
  assumes "down (set rdd) k"
  shows "nbrs (set rdd) k - {lead (set rdd) k} \<subseteq> set (tl (sort (group_of rdd k)))"
proof -
  from assms have "group_of rdd k \<noteq> []" by (simp add: down_iff group_of_nonempty)
  from set_tl_sort_lower [OF this] show ?thesis by (simp add: set_group_of lead_def)
qed

lemma rest_good:
  assumes "good True rdd" "down (set rdd) k"
  shows "set (tl (sort (group_of rdd k))) = nbrs (set rdd) k - {lead (set rdd) k}"
proof -
  from assms(2) have ne: "group_of rdd k \<noteq> []" by (simp add: down_iff group_of_nonempty)
  have "count_list (group_of rdd k) (Min (set (group_of rdd k))) = 1"
    using good_lead_once [OF assms] by (simp add: lead_def set_group_of)
  from set_tl_sort_once [OF ne this] show ?thesis by (simp add: set_group_of lead_def)
qed

lemma sorting_step_Inr:
  "CFF_step True rdd =
     Inr (CFF_emit drop_first
       (map (\<lambda>x. (fst x, snd x, lead (set rdd) (fst x)))
            (map (\<lambda>x. (fst x, sort (snd x))) (adjacency rdd))))"
  by (simp add: CFF_step_def CFF_iterate_sorting_Inr)

lemma sorting_step_general:
  "\<exists>new np. CFF_step True rdd = Inr (new, np) \<and> good True new \<and> Tset (set rdd) \<subseteq> set new \<and>
           set new \<subseteq> Tset (set rdd) \<union> {(b, b) | b. b \<in> nodes (Tset (set rdd))} \<and>
           (np = 0 \<longrightarrow> set new = Tset (set rdd) \<and> \<not> NPpos (set rdd))"
proof -
  let ?E = "set rdd"
  let ?r = "CFF_emit drop_first
       (map (\<lambda>x. (fst x, snd x, lead ?E (fst x)))
            (map (\<lambda>x. (fst x, sort (snd x))) (adjacency rdd)))"
  let ?A = "{(k, lead ?E k) | k. down ?E k}"
  let ?B = "{(v, lead ?E k) | k v. down ?E k \<and> v \<in> set (tl (sort (group_of rdd k)))}"
  have new: "set (fst ?r) = ?A \<union> ?B" by (rule set_sorting_new)
  have "CFF_step True rdd = Inr (fst ?r, snd ?r)" by (simp add: sorting_step_Inr)
  moreover have "good True (fst ?r)"
  proof -
    have "snd e \<le> fst e" if "e \<in> ?A \<union> ?B" for e
    proof -
      from that consider k where "down ?E k" "e = (k, lead ?E k)"
        | k v where "down ?E k" "v \<in> set (tl (sort (group_of rdd k)))" "e = (v, lead ?E k)"
        by blast
      then show ?thesis
      proof cases
        case 1
        then show ?thesis by (simp add: down_def)
      next
        case 2
        then have "v \<in> nbrs ?E k" using rest_upper by blast
        with 2 show ?thesis using lead_le [of ?E v k] by simp
      qed
    qed
    with new show ?thesis by (simp add: good_def distinct_CFF_emit)
  qed
  moreover have "Tset ?E \<subseteq> set (fst ?r)"
    unfolding new Tset_def using rest_lower [of rdd] by blast
  moreover have "set (fst ?r) \<subseteq> Tset ?E \<union> {(b, b) | b. b \<in> nodes (Tset ?E)}"
  proof
    fix e assume "e \<in> set (fst ?r)"
    with new consider k where "down ?E k" "e = (k, lead ?E k)"
      | k v where "down ?E k" "v \<in> set (tl (sort (group_of rdd k)))" "e = (v, lead ?E k)"
      by blast
    then show "e \<in> Tset ?E \<union> {(b, b) | b. b \<in> nodes (Tset ?E)}"
    proof cases
      case 1
      then show ?thesis by (simp add: Tset_keyI)
    next
      case 2
      then have v: "v \<in> nbrs ?E k" using rest_upper by blast
      show ?thesis
      proof (cases "v = lead ?E k")
        case True
        have "(k, lead ?E k) \<in> Tset ?E" using 2(1) by (rule Tset_keyI)
        then have "lead ?E k \<in> nodes (Tset ?E)" by (force simp: nodes_def)
        with True 2 show ?thesis by simp
      next
        case False
        with 2 v show ?thesis by (simp add: Tset_nbrI)
      qed
    qed
  qed
  moreover have "set (fst ?r) = Tset ?E \<and> \<not> NPpos ?E" if "snd ?r = 0"
  proof -
    from that have none: "tl (sort (group_of rdd k)) = []" if "down ?E k" for k
      using count_sorting_new [of rdd] that by auto
    then have "?B = {}" by auto
    moreover have np: "\<not> NPpos ?E"
      unfolding NPpos_def using rest_lower [of rdd] none by fastforce
    moreover from np have "Tset ?E = ?A" unfolding Tset_def NPpos_def by blast
    ultimately show ?thesis unfolding new by (simp only: Un_empty_right simp_thms)
  qed
  ultimately show ?thesis by (intro exI conjI impI) auto
qed

lemma sorting_step_good:
  assumes g: "good True rdd"
  shows "\<exists>new np. CFF_step True rdd = Inr (new, np) \<and> good True new \<and>
            set new = Tset (set rdd) \<and> (0 < np \<longleftrightarrow> NPpos (set rdd))"
proof -
  let ?E = "set rdd"
  let ?r = "CFF_emit drop_first
       (map (\<lambda>x. (fst x, snd x, lead ?E (fst x)))
            (map (\<lambda>x. (fst x, sort (snd x))) (adjacency rdd)))"
  have step: "CFF_step True rdd = Inr (fst ?r, snd ?r)" by (simp add: sorting_step_Inr)
  from sorting_step_general [of rdd] step have gn: "good True (fst ?r)" by auto
  have "set (fst ?r) = Tset ?E"
    unfolding set_sorting_new Tset_def using rest_good [OF g] by blast
  moreover have "0 < snd ?r \<longleftrightarrow> NPpos ?E"
  proof -
    have "tl (sort (group_of rdd k)) \<noteq> [] \<longleftrightarrow> (\<exists>v. v \<in> nbrs ?E k \<and> v \<noteq> lead ?E k)"
      if "down ?E k" for k
      using rest_good [OF g that] by (metis Diff_iff empty_iff insert_iff set_empty equals0I)
    then show ?thesis unfolding count_sorting_new NPpos_def by blast
  qed
  ultimately show ?thesis using step gn by (intro exI conjI)
qed

lemma step_good:
  assumes "good s rdd"
  shows "\<exists>new np. CFF_step s rdd = Inr (new, np) \<and> good s new \<and>
            set new = Tset (set rdd) \<and> (0 < np \<longleftrightarrow> NPpos (set rdd))"
proof (cases s)
  case True
  with assms sorting_step_good [of rdd] show ?thesis by simp
next
  case False
  with batch_step [of rdd] show ?thesis by (auto simp: good_def)
qed

lemma nodes_set_Tset: "nodes (Tset (set rdd)) \<subseteq> nodes (set rdd)"
  by (rule Tset_nodes) simp

lemma loop_total:
  assumes S: "finite S"
  shows "good s rdd \<Longrightarrow> nodes (set rdd) \<subseteq> S \<Longrightarrow>
         \<exists>F j prev. process_loop s (rdd, Suc n, i) = Some (Inr (F, i + j)) \<and>
               run (set rdd) (set F) j \<and> good s prev \<and> CFF_step s prev = Inr (F, 0)"
proof (induction "weight S (set rdd)" arbitrary: rdd n i rule: less_induct)
  case less
  from step_good [OF less.prems(1)] obtain new np where
    st: "CFF_step s rdd = Inr (new, np)" and gn: "good s new" and
    new: "set new = Tset (set rdd)" and np: "0 < np \<longleftrightarrow> NPpos (set rdd)" by blast
  have unfold: "process_loop s (rdd, Suc n, i) = process_loop s (new, np, Suc i)"
    by (rule process_loop_pos [OF st])
  show ?case
  proof (cases np)
    case 0
    with np have "\<not> NPpos (set rdd)" by simp
    then have "run (set rdd) (set new) 1" unfolding new by (rule run.stop)
    with unfold 0 st less.prems(1) show ?thesis by (auto simp: process_loop_zero)
  next
    case (Suc n')
    with np have pos: "NPpos (set rdd)" by simp
    have "weight S (set new) < weight S (set rdd)"
      unfolding new using weight_decrease [OF _ S less.prems(2) pos] by simp
    moreover have "nodes (set new) \<subseteq> S"
      unfolding new using nodes_set_Tset less.prems(2) by blast
    ultimately obtain F j prev where
      "process_loop s (new, Suc n', Suc i) = Some (Inr (F, Suc i + j))"
      "run (set new) (set F) j" "good s prev" "CFF_step s prev = Inr (F, 0)"
      using less.hyps [OF _ gn] by blast
    with unfold Suc pos new show ?thesis
      by (intro exI [of _ F] exI [of _ "Suc j"] exI [of _ prev]) (auto intro: run.step)
  qed
qed

subsection \<open>The result of the driver\<close>

lemma step_any:
  "\<exists>new np. CFF_step s rdd = Inr (new, np) \<and> good s new \<and> Tset (set rdd) \<subseteq> set new \<and>
           (\<forall>e\<in>set new. snd e \<le> fst e) \<and>
           (np = 0 \<longrightarrow> set new = Tset (set rdd) \<and> \<not> NPpos (set rdd))"
proof (cases s)
  case True
  with sorting_step_general [of rdd] show ?thesis by (auto simp: good_def)
next
  case False
  from batch_step [of rdd] obtain new np where
    st: "CFF_step False rdd = Inr (new, np)" "set new = Tset (set rdd)"
        "0 < np \<longleftrightarrow> NPpos (set rdd)" by blast
  have "snd e \<le> fst e" if "e \<in> set new" for e
    using Tset_strict [of "set rdd" "fst e" "snd e"] that st(2) by simp
  with st False show ?thesis by (auto simp: good_def)
qed

lemma step_zero:
  assumes "CFF_step s prev = Inr (F, 0)"
  shows "set F = Tset (set prev) \<and> \<not> NPpos (set prev) \<and> good s F"
  using step_any [of s prev] assms by auto

lemma process_run_total:
  "\<exists>F j prev. process_run rdd s = Some (Inr (F, j)) \<and> 0 < j \<and> CFF_step s prev = Inr (F, 0)"
proof -
  from step_any [of s rdd] obtain new np where
    st: "CFF_step s rdd = Inr (new, np)" and gn: "good s new" by blast
  have unfold: "process_run rdd s = process_loop s (new, np, Suc 0)"
    unfolding process_run_def using process_loop_pos [OF st, of 0 0] by simp
  show ?thesis
  proof (cases np)
    case 0
    with unfold st show ?thesis by (auto simp: process_loop_zero)
  next
    case (Suc n)
    have "finite (nodes (set new))" by (simp add: finite_nodes)
    from loop_total [OF this gn subset_refl, of n "Suc 0"] unfold Suc
    show ?thesis by auto
  qed
qed

lemma representative_alt:
  "representative F n = (if {v. (n, v) \<in> set F} = {} then n else Min {v. (n, v) \<in> set F})"
proof -
  have "set (map snd (filter (\<lambda>x. fst x = n) F)) = {v. (n, v) \<in> set F}"
    by (rule set_out_values)
  then show ?thesis
    unfolding representative_def Let_def by (metis set_empty)
qed

lemma finite_out: "finite {v. (n, v) \<in> set F}"
proof -
  have "{v. (n, v) \<in> set F} \<subseteq> snd ` set F" by force
  then show ?thesis by (rule finite_subset) simp
qed

lemma representative_le_entry: "(n, v) \<in> set F \<Longrightarrow> representative F n \<le> v"
  unfolding representative_alt using finite_out [of n F] by auto

lemma representative_le_self:
  assumes "\<forall>e\<in>set F. snd e \<le> fst e"
  shows "representative F n \<le> n"
proof (cases "{v. (n, v) \<in> set F} = {}")
  case True
  then show ?thesis by (simp add: representative_alt)
next
  case False
  then obtain v where v: "(n, v) \<in> set F" by blast
  with assms have "v \<le> n" by force
  with representative_le_entry [OF v] show ?thesis by simp
qed

lemma representative_step:
  assumes sub: "Tset (set rdd) \<subseteq> set new" and weak: "\<forall>e\<in>set new. snd e \<le> fst e"
  shows "representative new n \<le> representative rdd n"
proof (cases "{v. (n, v) \<in> set rdd} = {}")
  case True
  then have "representative rdd n = n" by (simp add: representative_alt)
  with representative_le_self [OF weak] show ?thesis by simp
next
  case False
  let ?r = "representative rdd n"
  from False have "?r \<in> {v. (n, v) \<in> set rdd}"
    unfolding representative_alt using finite_out [of n rdd] Min_in by auto
  then have "?r \<in> nbrs (set rdd) n" by (simp add: nbrs_def)
  then have le: "lead (set rdd) n \<le> ?r" and ne: "nbrs (set rdd) n \<noteq> {}"
    using lead_le [of "set rdd"] by auto
  show ?thesis
  proof (cases "down (set rdd) n")
    case True
    then have "(n, lead (set rdd) n) \<in> set new" using sub Tset_keyI by blast
    from representative_le_entry [OF this] le show ?thesis by simp
  next
    case False
    with ne have "n \<le> lead (set rdd) n" by (simp add: down_def)
    with representative_le_self [OF weak, of n] le show ?thesis by simp
  qed
qed

lemma star_idem:
  assumes fin: "finite E" and st: "star E"
  shows "Tset (Tset E) = Tset E"
proof -
  let ?F = "Tset E"
  have shape: "?F = {(k, lead E k) | k. down E k}" using st by (simp add: star_def)
  have same: "down ?F k \<and> lead ?F k = lead E k" if "down E k" for k
  proof -
    have "nbrs ?F k = {lead E k}" by (rule star_nbrs [OF fin st that])
    with that show ?thesis by (simp add: down_def lead_def)
  qed
  show ?thesis
  proof
    show "Tset ?F \<subseteq> ?F"
    proof
      fix e assume "e \<in> Tset ?F"
      then obtain a b where e: "e = (a, b)" and ab: "(a, b) \<in> Tset ?F" by (cases e) auto
      from ab obtain k where k: "down ?F k" "b = lead ?F k"
          "a = k \<or> (a \<in> nbrs ?F k \<and> a \<noteq> lead ?F k)"
        by (rule Tset_cases)
      from k(1) have dk: "down E k" using star_not_down [OF fin st] by blast
      have "nbrs ?F k = {lead E k}" by (rule star_nbrs [OF fin st dk])
      with k same [OF dk] have "a = k" "b = lead E k" by auto
      with e dk show "e \<in> ?F" by (simp add: Tset_keyI)
    qed
    show "?F \<subseteq> Tset ?F"
    proof
      fix e assume "e \<in> ?F"
      with shape obtain k where "e = (k, lead E k)" "down E k" by blast
      with same [of k] Tset_keyI [of ?F k] show "e \<in> Tset ?F" by simp
    qed
  qed
qed

lemma star_representative:
  assumes fin: "finite E" and st: "star E" and F: "set F = Tset E"
  shows "representative F n = rho E n"
proof -
  have "{v. (n, v) \<in> set F} = (if down E n then {lead E n} else {})"
    using st unfolding F star_def by auto
  then show ?thesis by (simp add: representative_alt rho_def)
qed

subsection \<open>Self-loops left by the sorted variant\<close>

lemma edge_nodes: "(a, b) \<in> E \<Longrightarrow> a \<in> nodes E \<and> b \<in> nodes E"
  by (force simp: nodes_def)

lemma loops_nodes:
  assumes "A \<subseteq> A'" "A' \<subseteq> A \<union> {(b, b) | b. b \<in> nodes A}"
  shows "nodes A' = nodes A"
proof
  show "nodes A' \<subseteq> nodes A"
  proof
    fix x assume "x \<in> nodes A'"
    then obtain a b where ab: "(a, b) \<in> A'" and x: "x = a \<or> x = b"
      by (auto simp: nodes_def)
    from ab assms(2) have "(a, b) \<in> A \<or> (a = b \<and> b \<in> nodes A)" by blast
    then have "a \<in> nodes A \<and> b \<in> nodes A" using edge_nodes [of a b A] by blast
    with x show "x \<in> nodes A" by blast
  qed
  show "nodes A \<subseteq> nodes A'"
  proof
    fix x assume "x \<in> nodes A"
    then obtain a b where ab: "(a, b) \<in> A" and x: "x = a \<or> x = b"
      by (auto simp: nodes_def)
    from ab assms(1) have "(a, b) \<in> A'" by blast
    then have "a \<in> nodes A' \<and> b \<in> nodes A'" by (rule edge_nodes)
    with x show "x \<in> nodes A'" by blast
  qed
qed

lemma loops_nbrs:
  assumes "A \<subseteq> A'" "A' \<subseteq> A \<union> {(b, b) | b. b \<in> nodes A}"
  shows "nbrs A k \<subseteq> nbrs A' k" "nbrs A' k \<subseteq> insert k (nbrs A k)"
    "nbrs A' k = {} \<longleftrightarrow> nbrs A k = {}"
proof -
  show "nbrs A k \<subseteq> nbrs A' k" using assms(1) by (auto simp: nbrs_def)
  show "nbrs A' k \<subseteq> insert k (nbrs A k)" using assms(2) by (auto simp: nbrs_def)
  show "nbrs A' k = {} \<longleftrightarrow> nbrs A k = {}"
    by (simp only: nbrs_empty_iff loops_nodes [OF assms])
qed

lemma loops_down:
  assumes fin: "finite A" and sub: "A \<subseteq> A'" "A' \<subseteq> A \<union> {(b, b) | b. b \<in> nodes A}"
  shows "down A' k \<longleftrightarrow> down A k" and "down A k \<Longrightarrow> lead A' k = lead A k"
proof -
  have fin': "finite A'"
  proof (rule finite_subset [OF sub(2)])
    have "{(b, b) | b. b \<in> nodes A} = (\<lambda>b. (b, b)) ` nodes A" by blast
    with fin show "finite (A \<union> {(b, b) | b. b \<in> nodes A})" by (simp add: finite_nodes)
  qed
  note n = loops_nbrs [OF sub, of k]
  have eq: "lead A' k = lead A k" if d: "down A k"
  proof -
    from d have ne: "nbrs A k \<noteq> {}" and lt: "lead A k < k" by (auto simp: down_def)
    have "lead A k \<in> nbrs A' k" using lead_in [OF fin ne] n(1) by blast
    moreover have "lead A k \<le> v" if "v \<in> nbrs A' k" for v
      using that n(2) lead_le [OF fin, of v k] lt by auto
    ultimately show ?thesis
      unfolding lead_def [of A' k] using finite_nbrs [OF fin', of k] by (intro Min_eqI) auto
  qed
  then show "down A k \<Longrightarrow> lead A' k = lead A k" .
  show "down A' k \<longleftrightarrow> down A k"
  proof
    assume "down A k"
    with eq n(3) show "down A' k" by (simp add: down_def)
  next
    assume d': "down A' k"
    then have "lead A' k \<in> nbrs A' k" "lead A' k < k"
      using lead_in [OF fin', of k] by (auto simp: down_def)
    with n(2) have "lead A' k \<in> nbrs A k" by auto
    from this \<open>lead A' k < k\<close> show "down A k" by (rule downI [OF fin])
  qed
qed

lemma loops_Tset:
  assumes fin: "finite A" and sub: "A \<subseteq> A'" "A' \<subseteq> A \<union> {(b, b) | b. b \<in> nodes A}"
  shows "Tset A' = Tset A"
proof
  note d = loops_down [OF fin sub]
  show "Tset A' \<subseteq> Tset A"
  proof
    fix e assume "e \<in> Tset A'"
    then obtain a b where e: "e = (a, b)" and ab: "(a, b) \<in> Tset A'" by (cases e) auto
    from ab obtain k where k: "down A' k" "b = lead A' k"
        "a = k \<or> (a \<in> nbrs A' k \<and> a \<noteq> lead A' k)"
      by (rule Tset_cases)
    from k(1) have dk: "down A k" by (simp add: d(1))
    with k(2) have b: "b = lead A k" by (simp add: d(2))
    from k(3) loops_nbrs(2) [OF sub, of k] d(2) [OF dk]
    have "a = k \<or> (a \<in> nbrs A k \<and> a \<noteq> lead A k)" by auto
    with dk b e show "e \<in> Tset A" by (auto simp: Tset_keyI Tset_nbrI)
  qed
  show "Tset A \<subseteq> Tset A'"
  proof
    fix e assume "e \<in> Tset A"
    then obtain a b where e: "e = (a, b)" and ab: "(a, b) \<in> Tset A" by (cases e) auto
    from ab obtain k where k: "down A k" "b = lead A k"
        "a = k \<or> (a \<in> nbrs A k \<and> a \<noteq> lead A k)"
      by (rule Tset_cases)
    from k(1) have dk: "down A' k" and b: "b = lead A' k" using k(2) by (simp_all add: d)
    from k(3) loops_nbrs(1) [OF sub, of k] d(2) [OF k(1)]
    have "a = k \<or> (a \<in> nbrs A' k \<and> a \<noteq> lead A' k)" by auto
    with dk b e show "e \<in> Tset A'" by (auto simp: Tset_keyI Tset_nbrI)
  qed
qed

lemma loops_NPpos:
  assumes fin: "finite A" and sub: "A \<subseteq> A'" "A' \<subseteq> A \<union> {(b, b) | b. b \<in> nodes A}"
    and np: "NPpos A"
  shows "NPpos A'"
proof -
  from np obtain k v where "down A k" "v \<in> nbrs A k" "v \<noteq> lead A k" by (auto simp: NPpos_def)
  with loops_down [OF fin sub, of k] loops_nbrs(1) [OF sub, of k]
  show ?thesis unfolding NPpos_def by auto
qed

lemma run_later:
  assumes fin: "finite A" and r: "run (Tset A) F j"
  shows "\<exists>j0. run A F j0 \<and> j0 \<le> Suc j"
proof (cases "NPpos A")
  case True
  from True r have "run A F (Suc j)" by (rule run.step)
  then show ?thesis by blast
next
  case False
  then have st: "star A" by (rule converged_star [OF fin])
  then have "\<not> NPpos (Tset A)" by (rule star_converged [OF fin])
  with r have "F = Tset (Tset A)" by (cases rule: run.cases) auto
  with star_idem [OF fin st] have "F = Tset A" by simp
  with False have "run A F 1" using run.stop [of A] by simp
  then show ?thesis by (intro exI [of _ 1]) simp
qed

lemma run_loops:
  assumes fin: "finite A" and sub: "A \<subseteq> A'" "A' \<subseteq> A \<union> {(b, b) | b. b \<in> nodes A}"
    and r: "run A' F j"
  shows "\<exists>j1. run A F j1 \<and> j1 \<le> j"
  using r
proof (cases rule: run.cases)
  case stop
  then have "\<not> NPpos A" using loops_NPpos [OF fin sub] by blast
  then have "run A (Tset A) 1" by (rule run.stop)
  with stop loops_Tset [OF fin sub] show ?thesis by auto
next
  case (step j')
  then have "run (Tset A) F j'" using loops_Tset [OF fin sub] by simp
  from run_later [OF fin this] step show ?thesis by auto
qed

lemma process_run_batch:
  "\<exists>F j. process_run rdd False = Some (Inr (F, j)) \<and> run (set rdd) (set F) j"
proof -
  have "good False rdd" by (simp add: good_def)
  from loop_total [OF _ this subset_refl, of 0 0]
  show ?thesis by (auto simp: process_run_def finite_nodes)
qed

lemma process_run_sorting:
  "\<exists>F j j0. process_run rdd True = Some (Inr (F, j)) \<and> run (set rdd) (set F) j0 \<and> j0 \<le> j"
proof -
  let ?E = "set rdd"
  from sorting_step_general [of rdd] obtain new np where
    st: "CFF_step True rdd = Inr (new, np)" and gn: "good True new" and
    lo: "Tset ?E \<subseteq> set new" and
    hi: "set new \<subseteq> Tset ?E \<union> {(b, b) | b. b \<in> nodes (Tset ?E)}" and
    z: "np = 0 \<longrightarrow> set new = Tset ?E \<and> \<not> NPpos ?E" by blast
  have unfold: "process_run rdd True = process_loop True (new, np, Suc 0)"
    unfolding process_run_def using process_loop_pos [OF st, of 0 0] by simp
  show ?thesis
  proof (cases np)
    case 0
    with z have "run ?E (set new) 1" using run.stop [of ?E] by simp
    with unfold 0 show ?thesis by (auto simp: process_loop_zero)
  next
    case (Suc n)
    have "finite (nodes (set new))" by (simp add: finite_nodes)
    from loop_total [OF this gn subset_refl, of n "Suc 0"] obtain F j where
      res: "process_loop True (new, Suc n, Suc 0) = Some (Inr (F, Suc 0 + j))" and
      r: "run (set new) (set F) j" by blast
    have finT: "finite (Tset ?E)" by (simp add: finite_Tset)
    from run_loops [OF finT lo hi r] obtain j1 where "run (Tset ?E) (set F) j1" "j1 \<le> j" by blast
    moreover from run_later [OF _ this(1)] obtain j0 where "run ?E (set F) j0" "j0 \<le> Suc j1"
      by auto
    ultimately show ?thesis using unfold Suc res by auto
  qed
qed

lemma variants_agree:
  "\<exists>Fb jb Fs js. process_run rdd False = Some (Inr (Fb, jb)) \<and>
      process_run rdd True = Some (Inr (Fs, js)) \<and> set Fb = set Fs \<and> jb \<le> js"
proof -
  from process_run_batch [of rdd] obtain Fb jb where
    b: "process_run rdd False = Some (Inr (Fb, jb))" "run (set rdd) (set Fb) jb" by blast
  from process_run_sorting [of rdd] obtain Fs js j0 where
    s: "process_run rdd True = Some (Inr (Fs, js))" "run (set rdd) (set Fs) j0" "j0 \<le> js" by blast
  from run_functional [OF b(2) s(2)] b(1) s(1,3) show ?thesis by auto
qed

lemma same_edges_same_result:
  assumes "set xs = set ys"
  shows "\<exists>F F' j j'. process_run xs sorting = Some (Inr (F, j)) \<and>
      process_run ys sorting = Some (Inr (F', j')) \<and> set F = set F' \<and> (\<not> sorting \<longrightarrow> j = j')"
proof (cases sorting)
  case True
  from process_run_sorting [of xs] obtain F j j0 where
    x: "process_run xs True = Some (Inr (F, j))" "run (set xs) (set F) j0" by blast
  from process_run_sorting [of ys] obtain F' j' j0' where
    y: "process_run ys True = Some (Inr (F', j'))" "run (set ys) (set F') j0'" by blast
  from run_functional [OF x(2)] y(2) assms have "set F = set F'" by simp
  with x(1) y(1) True show ?thesis by auto
next
  case False
  from process_run_batch [of xs] obtain F j where
    x: "process_run xs False = Some (Inr (F, j))" "run (set xs) (set F) j" by blast
  from process_run_batch [of ys] obtain F' j' where
    y: "process_run ys False = Some (Inr (F', j'))" "run (set ys) (set F') j'" by blast
  from run_functional [OF x(2)] y(2) assms have "set F = set F' \<and> j = j'" by simp
  with x(1) y(1) False show ?thesis by auto
qed

subsection \<open>The new-pairs count of the batch variant\<close>

lemma py_min_Inr: "py_min vs = Inr m \<Longrightarrow> vs \<noteq> [] \<and> m = Min (set vs)"
  using py_min_Min [of vs] by (cases vs) (auto simp: py_min_def)

lemma extract_min_Inr:
  "extract_min x = Inr y \<Longrightarrow> y = (fst x, snd x, Min (set (snd x)))"
  using py_min_Inr [of "snd x"] by (auto simp: extract_min_def split: sum.splits)

lemma rdd_map_extract_min:
  "rdd_map extract_min graph = Inr G \<Longrightarrow>
     G = map (\<lambda>x. (fst x, snd x, Min (set (snd x)))) graph"
proof (induction graph arbitrary: G)
  case Nil
  then show ?case by simp
next
  case (Cons x graph)
  from Cons.prems obtain y ys where
    y: "extract_min x = Inr y" and ys: "rdd_map extract_min graph = Inr ys" and G: "G = y # ys"
    by (auto split: sum.splits)
  from extract_min_Inr [OF y] Cons.IH [OF ys] G show ?case by simp
qed

lemma count_remove_min:
  "snd (CFF_emit remove_min (map (\<lambda>x. (fst x, snd x, Min (set (snd x)))) graph)) =
     (\<Sum>x\<leftarrow>graph. if Min (set (snd x)) < fst x
                   then length (filter (\<lambda>v. v \<noteq> Min (set (snd x))) (snd x)) else 0)"
proof -
  have "snd (CFF_emit remove_min (map (\<lambda>x. (fst x, snd x, Min (set (snd x)))) graph)) =
        sum_list (map (\<lambda>x. length (filter (\<lambda>v. v \<noteq> Min (set (snd x))) (snd x)))
                      (filter (\<lambda>x. Min (set (snd x)) < fst x) graph))"
    by (simp add: CFF_emit_def Let_def comp_def filter_map remove_min_def)
  then show ?thesis by (simp only: sum_list_map_filter')
qed

section \<open>The claims\<close>

subsection \<open>The two variants\<close>

text \<open>
  Claim C1. Batch and sorted reduction are claimed to reach the same final assignment in
  the same number of rounds. The final edge sets do agree (\<open>variants_agree\<close> above), but
  the numbers of rounds do not: on the two reciprocal edges \<open>(1,2)\<close>, \<open>(2,1)\<close> the batch
  variant stops after one round and the sorted variant after two, because its first round
  counts the self-loop \<open>(1,1)\<close> as a new pair.
\<close>

theorem variants_round_count:
  "process_run [(1, 2), (2, 1)] False = Some (Inr ([(2, 1)], 1)) \<and>
   process_run [(1, 2), (2, 1)] True = Some (Inr ([(2, 1)], 2))"
  by code_simp

text \<open>
  Claim C4. With the values sorted, dropping the first element is claimed to leave the
  values different from the minimum, as the batch variant's filter does. When the minimum
  occurs twice in the group, as for the record \<open>(2, [1, 1])\<close> that the edges \<open>(1,2)\<close>,
  \<open>(2,1)\<close> produce, the batch variant strips both occurrences, emits \<open>(2,1)\<close> alone and
  counts 0, whereas the sorted variant strips one, emits the self-loop \<open>(1,1)\<close> as well
  and counts 1.
\<close>

theorem sorted_rule_differs:
  "remove_min [1, 1] 1 = [] \<and> drop_first (sort [1, 1]) 1 = [1] \<and>
   CFF_reduce [(2, [1, 1])] = Inr ([(2, 1)], 0) \<and>
   CFF_reduce_sorting [(2, [1, 1])] = Inr ([(2, 1), (1, 1)], 1) \<and>
   adjacency [(1, 2), (2, 1)] = [(2, [1, 1]), (1, [2, 2])] \<and>
   CFF_iterate [(1, 2), (2, 1)] = Inr ([(2, 1)], 0) \<and>
   CFF_iterate_sorting [(1, 2), (2, 1)] = Inr ([(2, 1), (1, 1)], 1)"
  by code_simp

subsection \<open>Scenarios\<close>

text \<open>
  Claim C2, as stated: on the edges \<open>(1,2), (2,3), (2,4), (4,5), (6,7), (7,8)\<close> the driver
  is claimed to need two productive rounds, the third round observing zero new pairs,
  that is three rounds in all. It does not stop after three rounds.
\<close>

theorem scenario_rounds_counterexample:
  "process_rounds [(1, 2), (2, 3), (2, 4), (4, 5), (6, 7), (7, 8)] False \<noteq> Some (Inr 3)"
  by code_simp

text \<open>
  Claim C2, amended. On these edges the batch driver returns after four rounds, which
  report 4, 9, 4 and 0 new pairs: three productive rounds, the fourth observing zero. The
  returned edges are \<open>(2,1), (3,1), (4,1), (5,1), (7,6), (8,6)\<close>; read as an assignment,
  nodes 1 to 5 have representative 1 and nodes 6 to 8 have representative 6 (1 and 6 have
  no entry and stand for themselves).
\<close>

theorem scenario_two_components:
  "process_run [(1, 2), (2, 3), (2, 4), (4, 5), (6, 7), (7, 8)] False =
     Some (Inr ([(7, 6), (8, 6), (3, 1), (2, 1), (5, 1), (4, 1)], 4)) \<and>
   map (representative [(7, 6), (8, 6), (3, 1), (2, 1), (5, 1), (4, 1)]) [1, 2, 3, 4, 5, 6, 7, 8] =
     [1, 1, 1, 1, 1, 6, 6, 6] \<and>
   CFF_iterate [(1, 2), (2, 3), (2, 4), (4, 5), (6, 7), (7, 8)] =
     Inr ([(2, 1), (3, 2), (4, 2), (5, 4), (7, 6), (8, 7), (3, 1), (4, 1), (5, 2), (8, 6)], 4) \<and>
   CFF_iterate [(2, 1), (3, 2), (4, 2), (5, 4), (7, 6), (8, 7), (3, 1), (4, 1), (5, 2), (8, 6)] =
     Inr ([(5, 2), (4, 2), (7, 6), (2, 1), (8, 6), (3, 1), (4, 1), (5, 1)], 9) \<and>
   CFF_iterate [(5, 2), (4, 2), (7, 6), (2, 1), (8, 6), (3, 1), (4, 1), (5, 1)] =
     Inr ([(7, 6), (8, 6), (3, 1), (2, 1), (5, 1), (4, 1)], 4) \<and>
   CFF_iterate [(7, 6), (8, 6), (3, 1), (2, 1), (5, 1), (4, 1)] =
     Inr ([(7, 6), (8, 6), (3, 1), (2, 1), (5, 1), (4, 1)], 0)"
  by code_simp

text \<open>
  Claim C5. On the single self-loop \<open>(3,3)\<close> the pair emitter keeps the edge (it emits it
  twice), grouping gives the one record \<open>(3, [3, 3])\<close>, the reduction emits nothing for it
  because 3 is not greater than its minimum 3, and the driver stops after its first round
  with zero new pairs, for either variant: no productive round. The returned edge list is
  empty, so node 3 reads as its own representative.
\<close>

theorem self_loop_scenario:
  "emit_pairs [(3, 3)] = [(3, 3), (3, 3)] \<and>
   adjacency [(3, 3)] = [(3, [3, 3])] \<and>
   CFF_iterate [(3, 3)] = Inr ([], 0) \<and>
   CFF_iterate_sorting [(3, 3)] = Inr ([], 0) \<and>
   process_run [(3, 3)] False = Some (Inr ([], 1)) \<and>
   process_run [(3, 3)] True = Some (Inr ([], 1)) \<and>
   representative [] 3 = 3"
  by code_simp

text \<open>
  Claim C9. Duplicates do not change the result: the edges \<open>(1,2), (1,2), (2,1)\<close> give the
  same converged mapping as \<open>(1,2)\<close> alone, namely the single edge \<open>(2,1)\<close>, with either
  variant; and in general two edge lists with the same set of edges give results with the
  same set of edges.
\<close>

theorem duplicate_edges:
  "process [(1, 2), (1, 2), (2, 1)] sorting = Some (Inr [(2, 1)]) \<and>
   process [(1, 2)] sorting = Some (Inr [(2, 1)]) \<and>
   (\<forall>xs ys. set xs = set ys \<longrightarrow>
      (\<exists>F F'. process xs sorting = Some (Inr F) \<and> process ys sorting = Some (Inr F') \<and>
               set F = set F'))"
proof (intro conjI allI impI)
  have "process [(1, 2), (1, 2), (2, 1)] True = Some (Inr [(2, 1)])" by code_simp
  moreover have "process [(1, 2), (1, 2), (2, 1)] False = Some (Inr [(2, 1)])" by code_simp
  ultimately show "process [(1, 2), (1, 2), (2, 1)] sorting = Some (Inr [(2, 1)])"
    by (cases sorting) simp_all
  have "process [(1, 2)] True = Some (Inr [(2, 1)])" by code_simp
  moreover have "process [(1, 2)] False = Some (Inr [(2, 1)])" by code_simp
  ultimately show "process [(1, 2)] sorting = Some (Inr [(2, 1)])"
    by (cases sorting) simp_all
next
  fix xs ys :: "edge list"
  assume "set xs = set ys"
  from same_edges_same_result [OF this, of sorting]
  show "\<exists>F F'. process xs sorting = Some (Inr F) \<and> process ys sorting = Some (Inr F') \<and>
               set F = set F'"
    by (auto simp: process_def)
qed

theorem duplicate_edges_witness:
  "set [(1, 2), (1, 2), (2, 1)] = set [(2, 1), (1 :: int, 2 :: int)] \<and>
   (\<exists>F F'. process [(1, 2), (1, 2), (2, 1)] True = Some (Inr F) \<and>
            process [(2, 1), (1, 2)] True = Some (Inr F') \<and> set F = set F')"
proof -
  have h: "set [(1, 2), (1, 2), (2, 1)] = set [(2, 1), (1 :: int, 2 :: int)]" by auto
  from duplicate_edges [of True] h show ?thesis by blast
qed

subsection \<open>The new-pairs count\<close>

text \<open>
  Claim C3, as stated: the record \<open>(n, V)\<close> with minimum \<open>m\<close> is claimed to contribute the
  number of values different from \<open>m\<close> plus one when \<open>n > m\<close>. For the record \<open>(2, [1])\<close>
  that would be 1; the batch reduction counts 0.
\<close>

theorem new_pairs_plus_one_counterexample:
  "map_sum id snd (CFF_reduce [(2, [1])]) \<noteq> Inr (claimed_new_pairs 2 [1])"
  by code_simp

text \<open>
  Claim C3, amended. The new-pairs count of the batch reduction is the sum over the
  records \<open>(n, V)\<close> of the number of entries of \<open>V\<close> different from the minimum \<open>m\<close> of \<open>V\<close>,
  counted with their multiplicity, when \<open>n > m\<close>, and of 0 otherwise. The edge \<open>(n, m)\<close>
  itself is emitted but not counted. \<open>CFF_iterate\<close> is this reduction applied to the
  grouped pairs, and its count is the number that the loop of \<open>process\<close> tests.
\<close>

theorem batch_new_pairs_count:
  assumes "CFF_reduce graph = Inr (new, new_pairs)"
  shows "new_pairs =
     (\<Sum>x\<leftarrow>graph. if Min (set (snd x)) < fst x
                   then length (filter (\<lambda>v. v \<noteq> Min (set (snd x))) (snd x)) else 0)"
proof -
  from assms obtain G where G: "rdd_map extract_min graph = Inr G"
    and r: "CFF_emit remove_min G = (new, new_pairs)"
    by (auto simp: CFF_reduce_def split: sum.splits)
  from rdd_map_extract_min [OF G] r count_remove_min [of graph] show ?thesis by simp
qed

theorem batch_new_pairs_count_witness:
  "CFF_reduce [(2, [3, 1, 3]), (1, [2])] = Inr ([(2, 1), (3, 1)], 2) \<and>
   (2::nat) = (\<Sum>x\<leftarrow>[(2, [3, 1, 3]), (1 :: int, [2 :: int])]. if Min (set (snd x)) < fst x
                   then length (filter (\<lambda>v. v \<noteq> Min (set (snd x))) (snd x)) else 0)"
proof -
  have h: "CFF_reduce [(2, [3, 1, 3]), (1, [2])] = Inr ([(2, 1), (3, 1)], 2)" by code_simp
  from batch_new_pairs_count [OF h] h show ?thesis by simp
qed

subsection \<open>Invariants of the rounds and of the result\<close>

text \<open>
  Claim C6. One round never raises a representative: for every edge list and either
  variant the round returns, and in the edge list it returns the representative of every
  node is at most the representative the node had before the round. This holds for the
  input of the first round as well as between any two consecutive rounds.
\<close>

theorem representative_monotone:
  "\<exists>new np. CFF_step sorting rdd = Inr (new, np) \<and>
     (\<forall>n. representative new n \<le> representative rdd n)"
  using step_any [of sorting rdd] representative_step by blast

theorem representative_monotone_witness:
  "\<exists>new np. CFF_step True [(1, 2), (2, 1), (2, 3)] = Inr (new, np) \<and>
     (\<forall>n. representative new n \<le> representative [(1, 2), (2, 1), (2, 3)] n)"
  by (rule representative_monotone)

text \<open>
  Claim C7. For every input and either variant the driver returns an edge list in which
  the representative of every node is at most the node and is its own representative.
\<close>

theorem representative_valid:
  "\<exists>F. process rdd sorting = Some (Inr F) \<and>
     (\<forall>n. representative F n \<le> n \<and> representative F (representative F n) = representative F n)"
proof -
  from process_run_total [of rdd sorting] obtain F j prev where
    run: "process_run rdd sorting = Some (Inr (F, j))" and
    last: "CFF_step sorting prev = Inr (F, 0)" by blast
  from step_zero [OF last] have F: "set F = Tset (set prev)" and np: "\<not> NPpos (set prev)"
    by auto
  have st: "star (set prev)" by (rule converged_star [OF _ np]) simp
  have rep: "representative F n = rho (set prev) n" for n
    by (rule star_representative [OF _ st F]) simp
  have "rho (set prev) (rho (set prev) n) = rho (set prev) n" for n
    using st by (auto simp: rho_def star_def)
  with rep rho_le_self have "\<forall>n. representative F n \<le> n \<and>
      representative F (representative F n) = representative F n" by simp
  moreover from run have "process rdd sorting = Some (Inr F)" by (simp add: process_def)
  ultimately show ?thesis by blast
qed

theorem representative_valid_witness:
  "\<exists>F. process [(4, 2), (2, 3), (3, 1)] False = Some (Inr F) \<and>
     (\<forall>n. representative F n \<le> n \<and> representative F (representative F n) = representative F n)"
  by (rule representative_valid)

text \<open>
  Claim C8. For every input and either variant the driver returns an edge list \<open>Estar\<close> on
  which one further round reports zero new pairs and returns the same set of edges, so
  that the driver run on \<open>Estar\<close> stops after its first round, with no productive round.
\<close>

theorem rerun_converged:
  "\<exists>Estar j F'. process_run rdd sorting = Some (Inr (Estar, j)) \<and>
     CFF_step sorting Estar = Inr (F', 0) \<and> set F' = set Estar \<and>
     process_run Estar sorting = Some (Inr (F', 1))"
proof -
  from process_run_total [of rdd sorting] obtain F j prev where
    run: "process_run rdd sorting = Some (Inr (F, j))" and
    last: "CFF_step sorting prev = Inr (F, 0)" by blast
  from step_zero [OF last] have F: "set F = Tset (set prev)" and np: "\<not> NPpos (set prev)"
    and g: "good sorting F" by auto
  have st: "star (set prev)" by (rule converged_star [OF _ np]) simp
  have conv: "\<not> NPpos (set F)" unfolding F by (rule star_converged [OF _ st]) simp
  from step_good [OF g] conv obtain F' where
    again: "CFF_step sorting F = Inr (F', 0)" and F': "set F' = Tset (set F)" by auto
  have "set F' = set F" unfolding F' F by (rule star_idem [OF _ st]) simp
  moreover have "process_run F sorting = Some (Inr (F', 1))"
    unfolding process_run_def using process_loop_pos [OF again, of 0 0]
    by (simp add: process_loop_zero)
  ultimately show ?thesis using run again by blast
qed

theorem rerun_converged_witness:
  "\<exists>Estar j F'. process_run [(4, 2), (2, 3), (3, 1)] True = Some (Inr (Estar, j)) \<and>
     CFF_step True Estar = Inr (F', 0) \<and> set F' = set Estar \<and>
     process_run Estar True = Some (Inr (F', 1))"
  by (rule rerun_converged)

subsection \<open>Termination\<close>

text \<open>
  Claim C10. For every edge list (a list is finite, and its nodes are finitely many
  integers) and either variant the loop of \<open>process\<close> exits: it returns an edge list after
  a positive number of rounds, without raising, and the last round is one that reported
  zero new pairs.
\<close>

theorem process_terminates:
  "\<exists>F j. process_run rdd sorting = Some (Inr (F, j)) \<and> 0 < j \<and>
    (\<exists>prev. CFF_step sorting prev = Inr (F, 0)) \<and> process rdd sorting = Some (Inr F)"
proof -
  from process_run_total [of rdd sorting] obtain F j prev where
    "process_run rdd sorting = Some (Inr (F, j))" "0 < j" "CFF_step sorting prev = Inr (F, 0)"
    by blast
  then show ?thesis by (auto simp: process_def)
qed

theorem process_terminates_witness:
  "\<exists>F j. process_run [(1, 2), (2, 3), (2, 4), (4, 5), (6, 7), (7, 8)] True = Some (Inr (F, j)) \<and>
    0 < j \<and> (\<exists>prev. CFF_step True prev = Inr (F, 0)) \<and>
    process [(1, 2), (2, 3), (2, 4), (4, 5), (6, 7), (7, 8)] True = Some (Inr F)"
  by (rule process_terminates)

end
